theory Spec2Isabelle
  imports Main "HOL-Library.AList" "HOL-Library.Sublist" "HOL-Library.Word"
begin

section \<open>Data model\<close>

text \<open>
  The configuration tree of \<^verbatim>\<open>config.go\<close> is a Go value of type \<^verbatim>\<open>any\<close> built from
  \<^verbatim>\<open>nil\<close>, \<^verbatim>\<open>bool\<close>, \<^verbatim>\<open>int\<close>, \<^verbatim>\<open>float64\<close>, \<^verbatim>\<open>string\<close>, \<^verbatim>\<open>[]any\<close> and
  \<^verbatim>\<open>map[string]any\<close>; every type switch of the source is a case distinction on this
  datatype. A \<^verbatim>\<open>float64\<close> is kept as its 64-bit pattern (no function below computes with
  it). A map is an association list; its order stands for one of the iteration orders Go may
  choose, and a Go map has every key once (\<open>wf_node\<close> below). Strings are byte lists, taken
  to be valid UTF-8, so that ranging over the runes of a string and writing them back
  yields the same bytes. Go's \<^verbatim>\<open>int\<close> is taken to be 64 bits wide.
\<close>

datatype node =
    Null
  | Boolean bool
  | Integer int
  | Float "64 word"
  | String string
  | Sequence "node list"
  | Mapping "(string \<times> node) list"

text \<open>The dynamic type that \<^verbatim>\<open>%T\<close> prints in the error messages.\<close>

datatype gotype = T_nil | T_bool | T_int | T_float64 | T_string | T_slice | T_map

fun type_of :: "node \<Rightarrow> gotype" where
  "type_of Null = T_nil"
| "type_of (Boolean b) = T_bool"
| "type_of (Integer i) = T_int"
| "type_of (Float f) = T_float64"
| "type_of (String s) = T_string"
| "type_of (Sequence xs) = T_slice"
| "type_of (Mapping kvs) = T_map"

text \<open>
  Every error the source builds with \<^verbatim>\<open>fmt.Errorf\<close>, with the values its message is
  formatted from, and the run-time panics of Go (an index expression out of range, a
  \<^verbatim>\<open>make\<close> with a negative length), which the source does not catch.
\<close>

datatype error =
    InvalidPath string                 \<comment> \<open>\<^verbatim>\<open>invalid path %q\<close>\<close>
  | IndexOutOfRange string nat         \<comment> \<open>\<^verbatim>\<open>index out of range at %q: list has only %v items\<close>\<close>
  | InvalidIndex string                \<comment> \<open>\<^verbatim>\<open>invalid list index at %q\<close>\<close>
  | NoSuchKey string                   \<comment> \<open>\<^verbatim>\<open>nonexistent map key at %q\<close>\<close>
  | InvalidType string gotype          \<comment> \<open>\<^verbatim>\<open>invalid type at %q: expected []any or map[string]any; got %T\<close>\<close>
  | InvalidTypeAtRoot gotype           \<comment> \<open>\<^verbatim>\<open>invalid type at root: expected []any or map[string]any; got %T\<close>\<close>
  | TypeMismatch string gotype         \<comment> \<open>\<^verbatim>\<open>type mismatch: expected %s; got %T\<close>\<close>
  | ParseBoolSyntax string             \<comment> \<open>the \<^verbatim>\<open>*strconv.NumError\<close> of \<^verbatim>\<open>strconv.ParseBool\<close>\<close>
  | PanicIndex int nat                 \<comment> \<open>\<^verbatim>\<open>runtime error: index out of range [i] with length n\<close>\<close>
  | PanicMakeslice                     \<comment> \<open>\<^verbatim>\<open>runtime error: makeslice: len out of range\<close>\<close>

section \<open>The Go library functions the source calls\<close>

text \<open>\<^verbatim>\<open>strings.Join(parts, ".")\<close>.\<close>

fun join_dot :: "string list \<Rightarrow> string" where
  "join_dot [] = []"
| "join_dot [p] = p"
| "join_dot (p # q # ps) = p @ ''.'' @ join_dot (q # ps)"

text \<open>
  \<^verbatim>\<open>strings.Split(path, ".")\<close>: the substrings between the dots, one more than there are
  dots; the second argument is the substring read so far.
\<close>

fun split_from :: "string \<Rightarrow> string \<Rightarrow> string list" where
  "split_from cur [] = [cur]"
| "split_from cur (c # cs) =
     (if c = CHR ''.'' then cur # split_from [] cs else split_from (cur @ [c]) cs)"

definition split_dot :: "string \<Rightarrow> string list" where
  "split_dot path = split_from [] path"

text \<open>
  \<^verbatim>\<open>strconv.ParseInt(s, 10, 0)\<close> and \<^verbatim>\<open>strconv.Atoi(s)\<close>, which accept the same
  strings with the same values: an optional sign, then one or more decimal digits, the
  value within the range of a 64-bit \<^verbatim>\<open>int\<close>; \<open>None\<close> is a non-nil \<^verbatim>\<open>err\<close>.
\<close>

definition is_digit :: "char \<Rightarrow> bool" where
  "is_digit c = (of_char (CHR ''0'') \<le> (of_char c :: nat) \<and> (of_char c :: nat) \<le> of_char (CHR ''9''))"

definition digit_val :: "char \<Rightarrow> nat" where
  "digit_val c = of_char c - of_char (CHR ''0'')"

fun digits_val :: "nat \<Rightarrow> string \<Rightarrow> nat" where
  "digits_val acc [] = acc"
| "digits_val acc (c # cs) = digits_val (acc * 10 + digit_val c) cs"

definition parse_unsigned :: "string \<Rightarrow> nat option" where
  "parse_unsigned s =
     (if s \<noteq> [] \<and> list_all is_digit s then Some (digits_val 0 s) else None)"

definition ParseInt :: "string \<Rightarrow> int option" where
  "ParseInt s =
     (case s of
        [] \<Rightarrow> None
      | c # cs \<Rightarrow>
          if c = CHR ''-'' then
            (case parse_unsigned cs of
               None \<Rightarrow> None
             | Some n \<Rightarrow> if n \<le> 2 ^ 63 then Some (- int n) else None)
          else
            (case parse_unsigned (if c = CHR ''+'' then cs else s) of
               None \<Rightarrow> None
             | Some n \<Rightarrow> if n < 2 ^ 63 then Some (int n) else None))"

definition Atoi :: "string \<Rightarrow> int option" where
  "Atoi s = ParseInt s"

section \<open>Get\<close>

text \<open>
  \<^verbatim>\<open>splitKeyOnParts\<close>: the loop over the runes of the key, with its three variables
  \<^verbatim>\<open>bracketOpened\<close>, \<^verbatim>\<open>buffer\<close> and \<^verbatim>\<open>parts\<close>, and the last buffer appended only when it
  is not empty.
\<close>

fun splitKeyOnParts_loop :: "bool \<Rightarrow> string \<Rightarrow> string list \<Rightarrow> string \<Rightarrow> string list" where
  "splitKeyOnParts_loop bracketOpened buffer parts [] =
     (if buffer \<noteq> [] then parts @ [buffer] else parts)"
| "splitKeyOnParts_loop bracketOpened buffer parts (c # cs) =
     (if c = CHR ''['' \<or> c = CHR '']'' then
        splitKeyOnParts_loop (c = CHR ''['') buffer parts cs
      else if c = CHR ''.'' \<and> \<not> bracketOpened then
        splitKeyOnParts_loop bracketOpened [] (parts @ [buffer]) cs
      else splitKeyOnParts_loop bracketOpened (buffer @ [c]) parts cs)"

definition splitKeyOnParts :: "string \<Rightarrow> string list" where
  "splitKeyOnParts key = splitKeyOnParts_loop False [] [] key"

text \<open>
  The normalisation loop of \<^verbatim>\<open>Get\<close> and \<^verbatim>\<open>Set\<close>: it ranges over the slice as it was
  before the loop (second list argument, with the index \<open>k\<close>), and drops the head of
  \<^verbatim>\<open>parts\<close> (third list argument) at an empty first element.
\<close>

fun normalize_path_loop :: "string \<Rightarrow> nat \<Rightarrow> string list \<Rightarrow> string list \<Rightarrow> error + string list" where
  "normalize_path_loop path k [] parts = Inr parts"
| "normalize_path_loop path k (v # vs) parts =
     (if v = [] then
        (if k = 0 then normalize_path_loop path (Suc k) vs (tl parts)
         else Inl (InvalidPath path))
      else normalize_path_loop path (Suc k) vs parts)"

definition normalize_path :: "string \<Rightarrow> string list \<Rightarrow> error + string list" where
  "normalize_path path parts = normalize_path_loop path 0 parts parts"

text \<open>
  The second loop of \<^verbatim>\<open>Get\<close>, over the normalised parts (first argument, for the
  sub-path of the messages) from position \<open>pos\<close> on. The index expression \<^verbatim>\<open>c[i]\<close> is
  guarded by \<^verbatim>\<open>int(i) < len(c)\<close> only, so it panics at a negative \<open>i\<close>.
\<close>

fun Get_loop :: "string list \<Rightarrow> nat \<Rightarrow> string list \<Rightarrow> node \<Rightarrow> error + node" where
  "Get_loop parts pos [] cfg = Inr cfg"
| "Get_loop parts pos (part # rest) cfg =
     (case cfg of
        Sequence c \<Rightarrow>
          (case ParseInt part of
             Some i \<Rightarrow>
               if i < int (length c) then
                 (if i < 0 then Inl (PanicIndex i (length c))
                  else Get_loop parts (Suc pos) rest (c ! nat i))
               else Inl (IndexOutOfRange (join_dot (take (Suc pos) parts)) (length c))
           | None \<Rightarrow> Inl (InvalidIndex (join_dot (take (Suc pos) parts))))
      | Mapping c \<Rightarrow>
          (case map_of c part of
             Some v \<Rightarrow> Get_loop parts (Suc pos) rest v
           | None \<Rightarrow> Inl (NoSuchKey (join_dot (take (Suc pos) parts))))
      | _ \<Rightarrow> Inl (InvalidType (join_dot (take (Suc pos) parts)) (type_of cfg)))"

definition Get :: "node \<Rightarrow> string \<Rightarrow> error + node" where
  "Get cfg path =
     (case normalize_path path (splitKeyOnParts path) of
        Inl e \<Rightarrow> Inl e
      | Inr parts \<Rightarrow> Get_loop parts 0 parts cfg)"

section \<open>Set\<close>

text \<open>
  The values of this section are trees without sharing, as a decoder builds them: a
  \<^verbatim>\<open>Set\<close> returns the tree its caller sees afterwards, next to the \<^verbatim>\<open>error\<close> it
  returns (\<open>None\<close> is \<^verbatim>\<open>nil\<close>). A Go map is a reference, so an assignment to one of
  its keys is seen by every holder of the map. A slice is a header (array, length,
  capacity) passed by value: an assignment \<^verbatim>\<open>c[i] = v\<close> below the caller's length is
  seen by the caller, while \<^verbatim>\<open>c = append(c, nil)\<close> only changes the callee's header,
  and whatever the callee then writes at an index at or past the caller's length stays
  out of the caller's slice. The model writes this as \<open>take (length c)\<close> of the
  callee's slice. Memory is taken to be unbounded.
\<close>

text \<open>\<^verbatim>\<open>i+1\<close> on a 64-bit \<^verbatim>\<open>int\<close>, and \<^verbatim>\<open>make([]any, n)\<close>.\<close>

definition int_succ :: "int \<Rightarrow> int" where
  "int_succ i = (if i = 2 ^ 63 - 1 then - (2 ^ 63) else i + 1)"

definition make_slice :: "int \<Rightarrow> error + node" where
  "make_slice n =
     (if n < 0 then Inl PanicMakeslice else Inr (Sequence (replicate (nat n) Null)))"

text \<open>
  What both branches of \<^verbatim>\<open>Set\<close> create for a missing child, from the next part of
  the path: a slice of \<^verbatim>\<open>i+1\<close> \<^verbatim>\<open>nil\<close>s when it is an integer \<open>i\<close>, an empty map
  otherwise.
\<close>

definition materialize :: "string \<Rightarrow> error + node" where
  "materialize next =
     (case Atoi next of
        Some i \<Rightarrow> make_slice (int_succ i)
      | None \<Rightarrow> Inr (Mapping []))"

lemma split_from_ne: "split_from cur s \<noteq> []"
  by (induction s arbitrary: cur) auto

lemma join_dot_Cons: "xs \<noteq> [] \<Longrightarrow> join_dot (x # xs) = x @ ''.'' @ join_dot xs"
  by (cases xs) auto

lemma join_split_from: "join_dot (split_from cur s) = cur @ s"
  by (induction s arbitrary: cur) (auto simp: join_dot_Cons split_from_ne)

lemma join_split_dot: "join_dot (split_dot s) = s"
  by (simp add: split_dot_def join_split_from)

lemma normalize_path_loop_pos:
  "0 < k \<Longrightarrow> normalize_path_loop path k vs parts =
     (if [] \<in> set vs then Inl (InvalidPath path) else Inr parts)"
  by (induction vs arbitrary: k) auto

lemma normalize_path_Nil: "normalize_path path [] = Inr []"
  by (simp add: normalize_path_def)

lemma normalize_path_Cons:
  "normalize_path path (p # ps) =
     (if [] \<in> set ps then Inl (InvalidPath path) else Inr (if p = [] then ps else p # ps))"
  by (simp add: normalize_path_def normalize_path_loop_pos)

lemma length_join_dot_tl:
  "ps \<noteq> [] \<Longrightarrow> length ps \<noteq> Suc 0 \<Longrightarrow> length (join_dot (tl ps)) < length (join_dot ps)"
  by (cases ps rule: join_dot.cases) auto

lemma length_join_dot_tl_le: "length (join_dot (tl ps)) \<le> length (join_dot ps)"
  by (cases ps rule: join_dot.cases) auto

lemma split_dot_Cons: "\<exists>p ps. split_dot path = p # ps"
  using split_from_ne[of "[]" path] by (cases "split_dot path") (auto simp: split_dot_def)

lemma normalize_path_shorter:
  assumes "normalize_path path (split_dot path) = Inr parts"
    and "parts \<noteq> []" and "length parts \<noteq> Suc 0"
  shows "length (join_dot (tl parts)) < length path"
proof -
  obtain p ps where sp: "split_dot path = p # ps"
    using split_dot_Cons by blast
  have "parts = p # ps \<or> parts = ps"
    using assms(1) sp by (auto simp: normalize_path_Cons split: if_splits)
  moreover have "length (join_dot (p # ps)) = length path"
    using join_split_dot[of path] sp by simp
  moreover have "length (join_dot ps) \<le> length (join_dot (p # ps))"
    using length_join_dot_tl_le[of "p # ps"] by simp
  ultimately show ?thesis
    using length_join_dot_tl[of parts] assms(2,3) by auto
qed

text \<open>
  \<^verbatim>\<open>Set\<close>, as the source has it: split on the dots, normalise, return at an empty
  list of parts, then the type switch on \<^verbatim>\<open>cfg\<close>; every recursive call is on the
  re-joined rest of the parts, which the callee splits again. The path gets shorter at
  each call.
\<close>

function Set :: "node \<Rightarrow> string \<Rightarrow> node \<Rightarrow> node \<times> error option" where
  "Set cfg path val =
     (case normalize_path path (split_dot path) of
        Inl e \<Rightarrow> (cfg, Some e)
      | Inr parts \<Rightarrow>
          if length parts = 0 then (cfg, None)
          else
            (case cfg of
               Mapping c \<Rightarrow>
                 if length parts = 1 then (Mapping (AList.update (parts ! 0) val c), None)
                 else
                   (case map_of c (parts ! 0) of
                      Some v \<Rightarrow>
                        (case Set v (join_dot (tl parts)) val of
                           (v', r) \<Rightarrow> (Mapping (AList.update (parts ! 0) v' c), r))
                    | None \<Rightarrow>
                        (case materialize (parts ! 1) of
                           Inl e \<Rightarrow> (cfg, Some e)
                         | Inr new \<Rightarrow>
                             (case Set new (join_dot (tl parts)) val of
                                (new', r) \<Rightarrow> (Mapping (AList.update (parts ! 0) new' c), r))))
             | Sequence c \<Rightarrow>
                 (case Atoi (parts ! 0) of
                    None \<Rightarrow> (cfg, Some (InvalidIndex (parts ! 0)))
                  | Some i \<Rightarrow>
                      let c' = c @ replicate (nat (i + 1 - int (length c))) Null in
                      if i < 0 then (cfg, Some (PanicIndex i (length c')))
                      else if length parts = 1 then
                        (Sequence (take (length c) (c'[nat i := val])), None)
                      else
                        (case (if c' ! nat i = Null then materialize (parts ! 1)
                               else Inr (c' ! nat i)) of
                           Inl e \<Rightarrow> (cfg, Some e)
                         | Inr child \<Rightarrow>
                             (case Set child (join_dot (tl parts)) val of
                                (child', r) \<Rightarrow>
                                  (Sequence (take (length c) (c'[nat i := child'])), r))))
             | _ \<Rightarrow> (cfg, Some (InvalidTypeAtRoot (type_of cfg)))))"
  by pat_completeness auto
termination
  by (relation "measure (\<lambda>(cfg, path, val). length path)")
     (auto intro!: normalize_path_shorter)

declare Set.simps [simp del]

text \<open>
  The same walk on the list of parts, by recursion on the list. It is what \<^verbatim>\<open>Set\<close>
  computes once its path is split (\<open>Set_eq_Set_parts\<close> below): the parts that survive
  the normalisation are non-empty and hold no dot, so joining the rest and splitting it
  again in the callee gives the rest back.
\<close>

fun Set_parts :: "node \<Rightarrow> string list \<Rightarrow> node \<Rightarrow> node \<times> error option" where
  "Set_parts cfg [] val = (cfg, None)"
| "Set_parts cfg (p # ps) val =
     (case cfg of
        Mapping c \<Rightarrow>
          if ps = [] then (Mapping (AList.update p val c), None)
          else
            (case map_of c p of
               Some v \<Rightarrow>
                 (case Set_parts v ps val of
                    (v', r) \<Rightarrow> (Mapping (AList.update p v' c), r))
             | None \<Rightarrow>
                 (case materialize (hd ps) of
                    Inl e \<Rightarrow> (cfg, Some e)
                  | Inr new \<Rightarrow>
                      (case Set_parts new ps val of
                         (new', r) \<Rightarrow> (Mapping (AList.update p new' c), r))))
      | Sequence c \<Rightarrow>
          (case Atoi p of
             None \<Rightarrow> (cfg, Some (InvalidIndex p))
           | Some i \<Rightarrow>
               let c' = c @ replicate (nat (i + 1 - int (length c))) Null in
               if i < 0 then (cfg, Some (PanicIndex i (length c')))
               else if ps = [] then (Sequence (take (length c) (c'[nat i := val])), None)
               else
                 (case (if c' ! nat i = Null then materialize (hd ps) else Inr (c' ! nat i)) of
                    Inl e \<Rightarrow> (cfg, Some e)
                  | Inr child \<Rightarrow>
                      (case Set_parts child ps val of
                         (child', r) \<Rightarrow>
                           (Sequence (take (length c) (c'[nat i := child'])), r))))
      | _ \<Rightarrow> (cfg, Some (InvalidTypeAtRoot (type_of cfg))))"

text \<open>
  The paths that name an index at or past the end of a Sequence of the tree, at the last
  part or on the way: the walk of \<^verbatim>\<open>Set\<close> along the parts, through the tree as it is
  before the call.
\<close>

fun indexes_past_end :: "node \<Rightarrow> string list \<Rightarrow> bool" where
  "indexes_past_end cfg [] = False"
| "indexes_past_end cfg (p # ps) =
     (case cfg of
        Mapping c \<Rightarrow>
          (case map_of c p of Some v \<Rightarrow> indexes_past_end v ps | None \<Rightarrow> False)
      | Sequence c \<Rightarrow>
          (case Atoi p of
             Some i \<Rightarrow> int (length c) \<le> i \<or> (0 \<le> i \<and> indexes_past_end (c ! nat i) ps)
           | None \<Rightarrow> False)
      | _ \<Rightarrow> False)"

text \<open>A part as the normalisation leaves it: not empty, and without a dot.\<close>

definition plain :: "string \<Rightarrow> bool" where
  "plain p = (p \<noteq> [] \<and> CHR ''.'' \<notin> set p)"

lemma split_from_plain: "CHR ''.'' \<notin> set s \<Longrightarrow> split_from cur s = [cur @ s]"
  by (induction s arbitrary: cur) auto

lemma split_from_append_dot:
  "CHR ''.'' \<notin> set s \<Longrightarrow> split_from cur (s @ ''.'' @ t) = (cur @ s) # split_from [] t"
  by (induction s arbitrary: cur) auto

lemma split_dot_join:
  "ps \<noteq> [] \<Longrightarrow> \<forall>p\<in>set ps. CHR ''.'' \<notin> set p \<Longrightarrow> split_dot (join_dot ps) = ps"
proof (induction ps rule: join_dot.induct)
  case 1
  then show ?case by simp
next
  case (2 p)
  then show ?case by (simp add: split_dot_def split_from_plain)
next
  case (3 p q ps)
  then show ?case
    using split_from_append_dot[of p "[]" "join_dot (q # ps)"]
    by (simp add: split_dot_def)
qed

lemma split_from_no_dot:
  "CHR ''.'' \<notin> set cur \<Longrightarrow> \<forall>p\<in>set (split_from cur s). CHR ''.'' \<notin> set p"
proof (induction s arbitrary: cur)
  case Nil
  then show ?case by simp
next
  case (Cons a s)
  show ?case
  proof (cases "a = CHR ''.''")
    case True
    then show ?thesis using Cons.IH[of "[]"] Cons.prems by simp
  next
    case False
    then show ?thesis using Cons.IH[of "cur @ [a]"] Cons.prems by simp
  qed
qed

lemma split_dot_no_dot: "p \<in> set (split_dot s) \<Longrightarrow> CHR ''.'' \<notin> set p"
  using split_from_no_dot[of "[]" s] by (auto simp: split_dot_def)

lemma normalize_path_plain:
  assumes "normalize_path path (split_dot path) = Inr parts"
  shows "\<forall>p\<in>set parts. plain p"
proof -
  obtain p ps where sp: "split_dot path = p # ps"
    using split_dot_Cons by blast
  have nd: "\<forall>q\<in>set (p # ps). CHR ''.'' \<notin> set q"
    using split_dot_no_dot[of _ path] sp by auto
  from assms have "[] \<notin> set ps" "parts = (if p = [] then ps else p # ps)"
    unfolding sp by (auto simp: normalize_path_Cons split: if_splits)
  then show ?thesis using nd by (auto simp: plain_def)
qed

lemma normalize_path_join:
  assumes "ps \<noteq> []" and "\<forall>p\<in>set ps. plain p"
  shows "normalize_path path' (split_dot (join_dot ps)) = Inr ps"
proof -
  have "split_dot (join_dot ps) = ps"
    using assms by (intro split_dot_join) (auto simp: plain_def)
  moreover obtain q qs where "ps = q # qs"
    using assms(1) by (cases ps) auto
  ultimately show ?thesis
    using assms(2) by (auto simp: normalize_path_Cons plain_def)
qed

lemma Set_unfold:
  assumes "normalize_path path (split_dot path) = Inr (p # ps)"
  shows "Set cfg path val =
     (case cfg of
        Mapping c \<Rightarrow>
          if ps = [] then (Mapping (AList.update p val c), None)
          else
            (case map_of c p of
               Some v \<Rightarrow>
                 (case Set v (join_dot ps) val of
                    (v', r) \<Rightarrow> (Mapping (AList.update p v' c), r))
             | None \<Rightarrow>
                 (case materialize (hd ps) of
                    Inl e \<Rightarrow> (cfg, Some e)
                  | Inr new \<Rightarrow>
                      (case Set new (join_dot ps) val of
                         (new', r) \<Rightarrow> (Mapping (AList.update p new' c), r))))
      | Sequence c \<Rightarrow>
          (case Atoi p of
             None \<Rightarrow> (cfg, Some (InvalidIndex p))
           | Some i \<Rightarrow>
               let c' = c @ replicate (nat (i + 1 - int (length c))) Null in
               if i < 0 then (cfg, Some (PanicIndex i (length c')))
               else if ps = [] then (Sequence (take (length c) (c'[nat i := val])), None)
               else
                 (case (if c' ! nat i = Null then materialize (hd ps) else Inr (c' ! nat i)) of
                    Inl e \<Rightarrow> (cfg, Some e)
                  | Inr child \<Rightarrow>
                      (case Set child (join_dot ps) val of
                         (child', r) \<Rightarrow>
                           (Sequence (take (length c) (c'[nat i := child'])), r))))
      | _ \<Rightarrow> (cfg, Some (InvalidTypeAtRoot (type_of cfg))))"
  apply (subst Set.simps)
  apply (simp only: assms sum.case)
  apply (cases "ps = []")
   apply (simp cong: sum.case_cong option.case_cong node.case_cong prod.case_cong if_cong)
  apply (simp add: hd_conv_nth
      cong: sum.case_cong option.case_cong node.case_cong prod.case_cong if_cong)
  done

lemma Set_plain_parts:
  "ps \<noteq> [] \<Longrightarrow> \<forall>p\<in>set ps. plain p \<Longrightarrow> Set cfg (join_dot ps) val = Set_parts cfg ps val"
proof (induction ps arbitrary: cfg)
  case Nil
  then show ?case by simp
next
  case (Cons p ps)
  have n: "normalize_path (join_dot (p # ps)) (split_dot (join_dot (p # ps))) = Inr (p # ps)"
    using Cons.prems by (intro normalize_path_join) auto
  have IH: "ps \<noteq> [] \<Longrightarrow> Set cfg' (join_dot ps) val = Set_parts cfg' ps val" for cfg'
    using Cons by auto
  show ?case
    unfolding Set_unfold[OF n]
    by (cases "ps = []")
      (simp_all add: IH
        cong: sum.case_cong option.case_cong node.case_cong prod.case_cong if_cong)
qed

lemma Set_eq_Set_parts:
  "Set cfg path val =
     (case normalize_path path (split_dot path) of
        Inl e \<Rightarrow> (cfg, Some e)
      | Inr parts \<Rightarrow> Set_parts cfg parts val)"
proof (cases "normalize_path path (split_dot path)")
  case (Inl e)
  then show ?thesis by (subst Set.simps) simp
next
  case (Inr parts)
  show ?thesis
  proof (cases "parts = []")
    case True
    then show ?thesis using Inr by (subst Set.simps) simp
  next
    case False
    have pl: "\<forall>p\<in>set parts. plain p"
      using normalize_path_plain[OF Inr] .
    have n: "normalize_path path' (split_dot (join_dot parts)) = Inr parts" for path'
      using normalize_path_join[OF False pl] .
    obtain p ps where parts: "parts = p # ps"
      using False by (cases parts) auto
    have "Set cfg path val = Set cfg (join_dot parts) val"
      using Set_unfold[of path p ps cfg val] Set_unfold[of "join_dot parts" p ps cfg val]
        Inr n[of "join_dot parts"] parts by simp
    then show ?thesis
      using Set_plain_parts[OF False pl] Inr by simp
  qed
qed

section \<open>The Boolean accessor\<close>

text \<open>
  \<^verbatim>\<open>strconv.ParseBool\<close> of the Go library: a switch over twelve literals, and a syntax
  error for every other string.
\<close>

definition true_literals :: "string list" where
  "true_literals = [''1'', ''t'', ''T'', ''TRUE'', ''true'', ''True'']"

definition false_literals :: "string list" where
  "false_literals = [''0'', ''f'', ''F'', ''FALSE'', ''false'', ''False'']"

definition ParseBool :: "string \<Rightarrow> error + bool" where
  "ParseBool str =
     (if str \<in> set true_literals then Inr True
      else if str \<in> set false_literals then Inr False
      else Inl (ParseBoolSyntax str))"

text \<open>\<^verbatim>\<open>(*Config).Bool\<close>, on the root of the configuration.\<close>

definition Bool :: "node \<Rightarrow> string \<Rightarrow> error + bool" where
  "Bool root path =
     (case Get root path of
        Inl err \<Rightarrow> Inl err
      | Inr n \<Rightarrow>
          (case n of
             Boolean b \<Rightarrow> Inr b
           | String s \<Rightarrow> ParseBool s
           | _ \<Rightarrow> Inl (TypeMismatch ''bool or string'' (type_of n))))"

section \<open>Bracket segments\<close>

text \<open>
  C8. In the tree \<open>{root: {"a.b": 1}}\<close> the path \<open>root.[a.b]\<close> resolves to \<open>1\<close>: the
  bracketed text is one segment although it contains a dot. The path \<open>root.a.b\<close> fails
  with the error for a missing key, at the sub-path \<open>root.a\<close>.
\<close>

theorem Get_bracket_segment:
  "Get (Mapping [(''root'', Mapping [(''a.b'', Integer 1)])]) ''root.[a.b]'' = Inr (Integer 1)
   \<and> Get (Mapping [(''root'', Mapping [(''a.b'', Integer 1)])]) ''root.a.b''
       = Inl (NoSuchKey ''root.a'')"
  by (simp add: Get_def normalize_path_def splitKeyOnParts_def)

lemmas parse_defs = ParseInt_def parse_unsigned_def is_digit_def digit_val_def Atoi_def

lemmas Get_defs = Get_def normalize_path_def splitKeyOnParts_def

section \<open>Indices in Get\<close>

lemma Get_loop_invalid_index:
  "ParseInt part = None \<Longrightarrow>
     Get_loop parts pos (part # rest) (Sequence c)
       = Inl (InvalidIndex (join_dot (take (Suc pos) parts)))"
  by simp

lemma Get_loop_index_out_of_range:
  "ParseInt part = Some i \<Longrightarrow> int (length c) \<le> i \<Longrightarrow>
     Get_loop parts pos (part # rest) (Sequence c)
       = Inl (IndexOutOfRange (join_dot (take (Suc pos) parts)) (length c))"
  by simp

text \<open>
  C3. At a Sequence, a segment that is not an integer gives the error for an invalid
  index, and an integer at or past the length gives the error for an index out of range
  (the two lemmas above). But \<^verbatim>\<open>Get\<close> does fault: the segment \<open>-1\<close> parses as the
  integer \<open>-1\<close>, which is below the length, and the index expression \<^verbatim>\<open>c[i]\<close> panics.
  Here on the one-element list \<open>["x"]\<close>.
\<close>

theorem Get_negative_index_panics:
  "Get (Sequence [String ''x'']) ''-1'' = Inl (PanicIndex (- 1) 1)"
  by (simp add: Get_defs parse_defs)

section \<open>Empty segments in read paths\<close>

lemma Get_loop_not_InvalidPath: "Get_loop parts pos rest cfg \<noteq> Inl (InvalidPath p)"
  by (induction rest arbitrary: pos cfg) (auto split: node.splits option.splits)

lemma Get_InvalidPath_iff:
  "Get cfg path = Inl (InvalidPath path) \<longleftrightarrow> [] \<in> set (tl (splitKeyOnParts path))"
  by (cases "splitKeyOnParts path")
     (auto simp: Get_def normalize_path_Nil normalize_path_Cons Get_loop_not_InvalidPath)

lemma splitKeyOnParts_loop_trailing_dot:
  "CHR ''['' \<notin> set p \<Longrightarrow> CHR '']'' \<notin> set p \<Longrightarrow> (p = [] \<longrightarrow> buf \<noteq> [])
   \<Longrightarrow> (p \<noteq> [] \<longrightarrow> last p \<noteq> CHR ''.'')
   \<Longrightarrow> splitKeyOnParts_loop False buf parts (p @ ''.'') = splitKeyOnParts_loop False buf parts p"
  by (induction p arbitrary: buf parts) (auto split: if_splits)

lemma splitKeyOnParts_loop_Cons:
  "splitKeyOnParts_loop b buf (x # parts) s = x # splitKeyOnParts_loop b buf parts s"
  by (induction s arbitrary: b buf parts) auto

lemma splitKeyOnParts_leading_dot: "splitKeyOnParts (CHR ''.'' # p) = [] # splitKeyOnParts p"
  by (simp add: splitKeyOnParts_def splitKeyOnParts_loop_Cons)

lemma Get_cong_parts:
  "splitKeyOnParts p = splitKeyOnParts q \<Longrightarrow> [] \<notin> set (tl (splitKeyOnParts q))
   \<Longrightarrow> Get cfg p = Get cfg q"
  by (cases "splitKeyOnParts q") (auto simp: Get_def normalize_path_Nil normalize_path_Cons)

text \<open>
  C5, the claim as it stands fails: the path \<open>a.\<close> ends in a dot, and \<^verbatim>\<open>Get\<close> resolves
  it like \<open>a\<close>, since \<^verbatim>\<open>splitKeyOnParts\<close> appends its last buffer only when it is not
  empty.
\<close>

theorem Get_trailing_dot_resolves:
  "Get (Mapping [(''a'', Integer 1)]) ''a.'' = Inr (Integer 1)"
  by (simp add: Get_defs)

text \<open>
  C5, amended. \<^verbatim>\<open>Get\<close> returns the error for an invalid path exactly when the parts that
  \<^verbatim>\<open>splitKeyOnParts\<close> returns hold an empty part after the first one. A leading dot gives
  an empty first part, and the normalisation drops an empty first part. A dot that ends a
  path after a character that is no dot (in a path without brackets) gives no part at
  all: the path resolves as it does without that dot.
\<close>

theorem Get_empty_segments:
  "(Get cfg path = Inl (InvalidPath path) \<longleftrightarrow> [] \<in> set (tl (splitKeyOnParts path)))
   \<and> splitKeyOnParts (CHR ''.'' # path) = [] # splitKeyOnParts path
   \<and> normalize_path path ([] # ps)
        = (if [] \<in> set ps then Inl (InvalidPath path) else Inr ps)
   \<and> (CHR ''['' \<notin> set path \<and> CHR '']'' \<notin> set path \<and> path \<noteq> [] \<and> last path \<noteq> CHR ''.''
        \<and> [] \<notin> set (tl (splitKeyOnParts path))
      \<longrightarrow> Get cfg (path @ ''.'') = Get cfg path)"
proof (intro conjI impI)
  show "Get cfg path = Inl (InvalidPath path) \<longleftrightarrow> [] \<in> set (tl (splitKeyOnParts path))"
    by (rule Get_InvalidPath_iff)
  show "splitKeyOnParts (CHR ''.'' # path) = [] # splitKeyOnParts path"
    by (rule splitKeyOnParts_leading_dot)
  show "normalize_path path ([] # ps)
          = (if [] \<in> set ps then Inl (InvalidPath path) else Inr ps)"
    by (simp add: normalize_path_Cons)
next
  assume a: "CHR ''['' \<notin> set path \<and> CHR '']'' \<notin> set path \<and> path \<noteq> []
    \<and> last path \<noteq> CHR ''.'' \<and> [] \<notin> set (tl (splitKeyOnParts path))"
  then have "splitKeyOnParts (path @ ''.'') = splitKeyOnParts path"
    unfolding splitKeyOnParts_def by (intro splitKeyOnParts_loop_trailing_dot) auto
  then show "Get cfg (path @ ''.'') = Get cfg path"
    using a by (intro Get_cong_parts) auto
qed

theorem Get_empty_segments_witness:
  "CHR ''['' \<notin> set ''a'' \<and> CHR '']'' \<notin> set ''a'' \<and> ''a'' \<noteq> [] \<and> last ''a'' \<noteq> CHR ''.''
   \<and> [] \<notin> set (tl (splitKeyOnParts ''a''))
   \<and> Get (Mapping [(''a'', Integer 1)]) (''a'' @ ''.'') = Inr (Integer 1)
   \<and> Get (Mapping [(''a'', Integer 1)]) ''..a'' = Inl (InvalidPath ''..a'')"
  using Get_empty_segments [of "Mapping [(''a'', Integer 1)]" "''a''"]
    Get_empty_segments [of "Mapping [(''a'', Integer 1)]" "''..a''"]
  by (simp add: Get_defs)

section \<open>Strings that the Boolean accessor accepts\<close>

text \<open>
  C6, the claim as it stands fails: on the String leaf \<open>1\<close> the accessor succeeds with
  \<open>true\<close>, and on the String leaf \<open>yes\<close> it fails with the syntax error of
  \<^verbatim>\<open>strconv.ParseBool\<close>, which is not the error \<^verbatim>\<open>typeMismatch\<close> builds.
\<close>

theorem Bool_accepts_more_literals:
  "Bool (Mapping [(''k'', String ''1'')]) ''k'' = Inr True
   \<and> Bool (Mapping [(''k'', String ''yes'')]) ''k'' = Inl (ParseBoolSyntax ''yes'')"
  by (simp add: Bool_def ParseBool_def true_literals_def false_literals_def Get_defs)

lemma literals_disjoint: "s \<in> set true_literals \<Longrightarrow> s \<notin> set false_literals"
  unfolding true_literals_def false_literals_def
  by (elim set_ConsD[elim_format] disjE) simp_all

lemma ParseBool_True_iff: "ParseBool s = Inr True \<longleftrightarrow> s \<in> set true_literals"
  unfolding ParseBool_def by simp

lemma ParseBool_False_iff: "ParseBool s = Inr False \<longleftrightarrow> s \<in> set false_literals"
  unfolding ParseBool_def using literals_disjoint[of s] by auto

lemma ParseBool_ok_iff:
  "(\<exists>b. ParseBool s = Inr b) \<longleftrightarrow> s \<in> set (true_literals @ false_literals)"
  unfolding ParseBool_def by auto

lemma ParseBool_err_iff:
  "(\<exists>e. ParseBool s = Inl e) \<longleftrightarrow> ParseBool s = Inl (ParseBoolSyntax s)"
  unfolding ParseBool_def by auto

lemma Bool_String: "Get root path = Inr (String s) \<Longrightarrow> Bool root path = ParseBool s"
  by (simp add: Bool_def)

text \<open>
  C6, amended. When the path resolves to the node \<open>n\<close>: a Boolean is returned as it is;
  a String succeeds exactly when it is one of the twelve literals of
  \<^verbatim>\<open>strconv.ParseBool\<close> (\<open>1\<close>, \<open>t\<close>, \<open>T\<close>, \<open>TRUE\<close>, \<open>true\<close>, \<open>True\<close> with the
  result \<open>true\<close>; \<open>0\<close>, \<open>f\<close>, \<open>F\<close>, \<open>FALSE\<close>, \<open>false\<close>, \<open>False\<close> with the result
  \<open>false\<close>), and fails with the syntax error of \<^verbatim>\<open>strconv.ParseBool\<close> otherwise; every
  other variant fails with the type mismatch that names its type.
\<close>

theorem Bool_accessor:
  assumes "Get root path = Inr n"
  shows "case n of
      Boolean b \<Rightarrow> Bool root path = Inr b
    | String s \<Rightarrow>
        ((\<exists>b. Bool root path = Inr b) \<longleftrightarrow> s \<in> set (true_literals @ false_literals))
        \<and> (Bool root path = Inr True \<longleftrightarrow> s \<in> set true_literals)
        \<and> (Bool root path = Inr False \<longleftrightarrow> s \<in> set false_literals)
        \<and> ((\<exists>e. Bool root path = Inl e) \<longleftrightarrow> Bool root path = Inl (ParseBoolSyntax s))
    | _ \<Rightarrow> Bool root path = Inl (TypeMismatch ''bool or string'' (type_of n))"
proof (cases n)
  case (String s)
  then have "Bool root path = ParseBool s"
    using assms by (simp add: Bool_String)
  then show ?thesis
    unfolding String node.case
    using ParseBool_ok_iff[of s] ParseBool_True_iff[of s] ParseBool_False_iff[of s]
      ParseBool_err_iff[of s]
    by simp
qed (use assms in \<open>simp_all add: Bool_def\<close>)

theorem Bool_accessor_witness:
  "Get (Mapping [(''k'', String ''true'')]) ''k'' = Inr (String ''true'')
   \<and> Bool (Mapping [(''k'', String ''true'')]) ''k'' = Inr True"
proof -
  have g: "Get (Mapping [(''k'', String ''true'')]) ''k'' = Inr (String ''true'')"
    by (simp add: Get_defs)
  show ?thesis
    using g Bool_accessor [OF g] by (simp add: true_literals_def)
qed

section \<open>Set with a path without parts\<close>

lemma normalize_path_empty_iff:
  "normalize_path path (split_dot path) = Inr [] \<longleftrightarrow> path = []"
proof
  assume a: "normalize_path path (split_dot path) = Inr []"
  obtain p ps where sp: "split_dot path = p # ps"
    using split_dot_Cons by blast
  from a have "p = []" "ps = []"
    unfolding sp by (auto simp: normalize_path_Cons split: if_splits)
  then show "path = []"
    using join_split_dot[of path] sp by simp
next
  assume "path = []"
  then show "normalize_path path (split_dot path) = Inr []"
    by (simp add: split_dot_def normalize_path_def)
qed

text \<open>
  C10, the claim as it stands fails: the path made of one dot splits into two empty
  parts, and the second one is an invalid path for \<^verbatim>\<open>Set\<close>, which returns the error.
\<close>

theorem Set_dot_path_fails:
  "Set (Mapping []) ''.'' (Integer 1) = (Mapping [], Some (InvalidPath ''.''))"
  by (simp add: Set_eq_Set_parts split_dot_def normalize_path_def)

text \<open>
  C10, amended. \<^verbatim>\<open>Set\<close> with the empty path returns no error and leaves the tree as it
  is, whatever the value. The empty path is the only one whose list of parts is empty
  after the normalisation. With the path of one dot \<^verbatim>\<open>Set\<close> returns the error for an
  invalid path, and leaves the tree as it is too.
\<close>

theorem Set_empty_path:
  "Set cfg [] val = (cfg, None)
   \<and> (normalize_path path (split_dot path) = Inr [] \<longleftrightarrow> path = [])
   \<and> Set cfg ''.'' val = (cfg, Some (InvalidPath ''.''))"
  by (simp add: Set_eq_Set_parts normalize_path_empty_iff)
     (simp add: split_dot_def normalize_path_def)

section \<open>Set followed by Get\<close>

lemma indexes_past_end_Null: "\<not> indexes_past_end Null ps"
  by (cases ps) auto

lemma materialize_not_past_end:
  "materialize q = Inr new \<Longrightarrow> \<not> indexes_past_end new (q # qs)"
  by (auto simp: materialize_def make_slice_def int_succ_def indexes_past_end_Null
      split: option.splits if_splits)

lemma map_of_update_same: "map_of (AList.update p v c) p = Some v"
  by (simp add: update_conv')

lemma Set_parts_then_Get_loop:
  "Set_parts cfg ps val = (cfg', None) \<Longrightarrow> ps \<noteq> [] \<Longrightarrow> \<not> indexes_past_end cfg ps
   \<Longrightarrow> Get_loop parts pos ps cfg' = Inr val"
proof (induction ps arbitrary: cfg cfg' pos)
  case Nil
  then show ?case by simp
next
  case (Cons p ps)
  show ?case
  proof (cases cfg)
    case (Mapping c)
    show ?thesis
    proof (cases "ps = []")
      case True
      then show ?thesis
        using Cons.prems Mapping by (auto simp: map_of_update_same)
    next
      case False
      show ?thesis
      proof (cases "map_of c p")
        case None
        then obtain new new' where m: "materialize (hd ps) = Inr new"
          and s: "Set_parts new ps val = (new', None)" and c': "cfg' = Mapping (AList.update p new' c)"
          using Cons.prems(1) Mapping False by (auto split: sum.splits prod.splits)
        have "\<not> indexes_past_end new ps"
          using materialize_not_past_end[OF m, of "tl ps"] False by simp
        then have "Get_loop parts (Suc pos) ps new' = Inr val"
          using Cons.IH[OF s False] by simp
        then show ?thesis by (simp add: c' map_of_update_same)
      next
        case (Some v)
        then obtain v' where s: "Set_parts v ps val = (v', None)"
          and c': "cfg' = Mapping (AList.update p v' c)"
          using Cons.prems(1) Mapping False by (auto split: prod.splits)
        have "\<not> indexes_past_end v ps"
          using Cons.prems(3) Mapping Some by simp
        then have "Get_loop parts (Suc pos) ps v' = Inr val"
          using Cons.IH[OF s False] by simp
        then show ?thesis by (simp add: c' map_of_update_same)
      qed
    qed
  next
    case (Sequence c)
    obtain i where a: "Atoi p = Some i" and i0: "0 \<le> i"
      using Cons.prems(1) Sequence by (auto simp: Let_def split: option.splits if_splits)
    have il: "i < int (length c)" and np: "\<not> indexes_past_end (c ! nat i) ps"
      using Cons.prems(3) Sequence a i0 by auto
    have pi: "ParseInt p = Some i" using a by (simp add: Atoi_def)
    have ni: "nat i < length c" using il i0 by auto
    show ?thesis
    proof (cases "ps = []")
      case True
      then have "cfg' = Sequence (c[nat i := val])"
        using Cons.prems(1) Sequence a i0 il by (simp add: Let_def)
      then show ?thesis using True pi il i0 ni by simp
    next
      case False
      obtain child child' where ch: "(if c ! nat i = Null then materialize (hd ps) else Inr (c ! nat i)) = Inr child"
        and s: "Set_parts child ps val = (child', None)"
        and c': "cfg' = Sequence (c[nat i := child'])"
        using Cons.prems(1) Sequence a i0 il False
        by (simp add: Let_def split: sum.splits prod.splits if_splits)
      have "\<not> indexes_past_end child ps"
      proof (cases "c ! nat i = Null")
        case True
        then have "materialize (hd ps) = Inr child" using ch by simp
        then show ?thesis using materialize_not_past_end[of "hd ps" child "tl ps"] False by simp
      next
        case False
        then show ?thesis using ch np by simp
      qed
      then have "Get_loop parts (Suc pos) ps child' = Inr val"
        using Cons.IH[OF s False] by simp
      then show ?thesis using pi il i0 ni by (simp add: c')
    qed
  qed (use Cons.prems in auto)
qed

lemma splitKeyOnParts_loop_split_from:
  "CHR ''['' \<notin> set s \<Longrightarrow> CHR '']'' \<notin> set s \<Longrightarrow>
   splitKeyOnParts_loop False buf parts s =
     parts @ (if last (split_from buf s) = [] then butlast (split_from buf s)
              else split_from buf s)"
  by (induction s arbitrary: buf parts) (auto simp: split_from_ne)

lemma splitKeyOnParts_split_dot:
  assumes "CHR ''['' \<notin> set path" "CHR '']'' \<notin> set path"
    and "normalize_path path (split_dot path) = Inr parts" "parts \<noteq> []"
  shows "splitKeyOnParts path = split_dot path"
proof -
  obtain p ps where sp: "split_dot path = p # ps"
    using split_dot_Cons by blast
  have ne: "[] \<notin> set ps" and parts: "parts = (if p = [] then ps else p # ps)"
    using assms(3) unfolding sp by (auto simp: normalize_path_Cons split: if_splits)
  have "ps \<noteq> [] \<Longrightarrow> last ps \<noteq> []"
    using ne by (metis last_in_set)
  moreover have "ps = [] \<Longrightarrow> p \<noteq> []"
    using parts assms(4) by auto
  ultimately have "last (split_dot path) \<noteq> []"
    unfolding sp by (cases "ps = []") simp_all
  then show ?thesis
    using splitKeyOnParts_loop_split_from[OF assms(1,2), of "[]" "[]"]
    by (simp add: splitKeyOnParts_def split_dot_def)
qed




text \<open>
  What \<^verbatim>\<open>Set\<close> does at an index past the end of a Sequence of the tree, here index \<open>5\<close>
  of the list \<open>[0]\<close> at \<open>a\<close>: it returns no error, the slice it grew is its own, and the
  tree its caller holds is as before; \<^verbatim>\<open>Get\<close> then reports the index out of range.
\<close>

lemma Set_past_end_not_stored:
  "Set (Mapping [(''a'', Sequence [Integer 0])]) ''a.5'' (Integer 7)
     = (Mapping [(''a'', Sequence [Integer 0])], None)
   \<and> Get (Mapping [(''a'', Sequence [Integer 0])]) ''a.5'' = Inl (IndexOutOfRange ''a.5'' 1)"
  by (simp add: Set_eq_Set_parts split_dot_def normalize_path_def Get_defs parse_defs)

section \<open>The array-path scanner\<close>

text \<open>
  \<^verbatim>\<open>findArrayPathsRecursive\<close>, with the slice behind the pointer \<^verbatim>\<open>paths\<close> passed in and
  returned, and the \<^verbatim>\<open>range\<close> over the entries of a map as a second function; \<^verbatim>\<open>newPath\<close>
  is the path of an entry, which gets a dot only after a path that is not empty.
\<close>

definition newPath :: "string \<Rightarrow> string \<Rightarrow> string" where
  "newPath path k = (if path \<noteq> [] then path @ ''.'' else path) @ k"

fun findArrayPathsRecursive :: "node \<Rightarrow> string \<Rightarrow> string list \<Rightarrow> string list"
  and findArrayPaths_range :: "(string \<times> node) list \<Rightarrow> string \<Rightarrow> string list \<Rightarrow> string list" where
  "findArrayPathsRecursive (Sequence v) path paths = paths @ [path]"
| "findArrayPathsRecursive (Mapping v) path paths = findArrayPaths_range v path paths"
| "findArrayPathsRecursive Null path paths = paths"
| "findArrayPathsRecursive (Boolean b) path paths = paths"
| "findArrayPathsRecursive (Integer i) path paths = paths"
| "findArrayPathsRecursive (Float f) path paths = paths"
| "findArrayPathsRecursive (String s) path paths = paths"
| "findArrayPaths_range [] path paths = paths"
| "findArrayPaths_range ((k, val) # kvs) path paths =
     findArrayPaths_range kvs path (findArrayPathsRecursive val (newPath path k) paths)"

definition findArrayPaths :: "node \<Rightarrow> string list" where
  "findArrayPaths root = findArrayPathsRecursive root [] []"

text \<open>
  The trees in which every map holds a key once, as a Go map does.
\<close>

fun wf_node :: "node \<Rightarrow> bool" where
  "wf_node (Mapping c) = (distinct (map fst c) \<and> (\<forall>kv \<in> set c. wf_node (snd kv)))"
| "wf_node (Sequence xs) = (\<forall>x \<in> set xs. wf_node x)"
| "wf_node _ = True"

text \<open>
  The node that a list of keys leads to, through Mappings only, and the path that the
  scanner records for such a list of keys: the keys joined by dots, once the empty keys
  in front are dropped.
\<close>

fun descend :: "node \<Rightarrow> string list \<Rightarrow> node option" where
  "descend n [] = Some n"
| "descend (Mapping c) (k # ks) =
     (case map_of c k of Some v \<Rightarrow> descend v ks | None \<Rightarrow> None)"
| "descend _ (k # ks) = None"

definition recorded_path :: "string list \<Rightarrow> string" where
  "recorded_path ks = join_dot (dropWhile (\<lambda>k. k = []) ks)"

definition array_paths :: "node \<Rightarrow> string \<Rightarrow> string set" where
  "array_paths val path =
     {foldl newPath path ks | ks. \<exists>xs. descend val ks = Some (Sequence xs)}"

lemma descend_Sequence: "descend (Sequence xs) ks = Some n \<longleftrightarrow> ks = [] \<and> n = Sequence xs"
  by (cases ks) auto

lemma array_paths_Sequence: "array_paths (Sequence xs) path = {path}"
  by (auto simp: array_paths_def descend_Sequence)

lemma descend_leaf:
  "\<forall>c. val \<noteq> Mapping c \<Longrightarrow> descend val ks = Some n \<longleftrightarrow> ks = [] \<and> n = val"
  by (cases "(val, ks)" rule: descend.cases) auto

lemma array_paths_leaf:
  "\<forall>c. val \<noteq> Mapping c \<Longrightarrow> \<forall>xs. val \<noteq> Sequence xs \<Longrightarrow> array_paths val path = {}"
  by (auto simp: array_paths_def descend_leaf)

lemma descend_Mapping_Nil: "descend (Mapping []) ks = Some n \<longleftrightarrow> ks = [] \<and> n = Mapping []"
  by (cases ks) auto

lemma array_paths_Mapping_Nil: "array_paths (Mapping []) path = {}"
  by (auto simp: array_paths_def descend_Mapping_Nil)

lemma descend_Mapping_fresh:
  "k \<notin> fst ` set kvs \<Longrightarrow> descend (Mapping kvs) (k # ks) = None"
  by (simp add: map_of_eq_None_iff[THEN iffD2])

lemma array_paths_Mapping_Cons:
  assumes "k \<notin> fst ` set kvs"
  shows "array_paths (Mapping ((k, val) # kvs)) path
           = array_paths val (newPath path k) \<union> array_paths (Mapping kvs) path"
proof (intro equalityI subsetI)
  fix p assume "p \<in> array_paths (Mapping ((k, val) # kvs)) path"
  then obtain ks xs where p: "p = foldl newPath path ks"
    and d: "descend (Mapping ((k, val) # kvs)) ks = Some (Sequence xs)"
    by (auto simp: array_paths_def)
  from d obtain k' ks' where ks: "ks = k' # ks'"
    by (cases ks) auto
  show "p \<in> array_paths val (newPath path k) \<union> array_paths (Mapping kvs) path"
  proof (cases "k' = k")
    case True
    then have "descend val ks' = Some (Sequence xs)"
      using d ks by simp
    then have "p \<in> array_paths val (newPath path k)"
      using p ks True by (auto simp: array_paths_def)
    then show ?thesis by simp
  next
    case False
    then have "descend (Mapping kvs) ks = Some (Sequence xs)"
      using d ks by simp
    then have "p \<in> array_paths (Mapping kvs) path"
      using p by (auto simp: array_paths_def)
    then show ?thesis by simp
  qed
next
  fix p assume "p \<in> array_paths val (newPath path k) \<union> array_paths (Mapping kvs) path"
  then consider (a) "p \<in> array_paths val (newPath path k)"
    | (b) "p \<in> array_paths (Mapping kvs) path"
    by auto
  then show "p \<in> array_paths (Mapping ((k, val) # kvs)) path"
  proof cases
    case a
    then obtain ks xs where p: "p = foldl newPath (newPath path k) ks"
      and d: "descend val ks = Some (Sequence xs)"
      by (auto simp: array_paths_def)
    have "p = foldl newPath path (k # ks)"
      using p by simp
    moreover have "descend (Mapping ((k, val) # kvs)) (k # ks) = Some (Sequence xs)"
      using d by simp
    ultimately show ?thesis
      unfolding array_paths_def by blast
  next
    case b
    then obtain ks xs where p: "p = foldl newPath path ks"
      and d: "descend (Mapping kvs) ks = Some (Sequence xs)"
      by (auto simp: array_paths_def)
    from d obtain k' ks' where ks: "ks = k' # ks'"
      by (cases ks) auto
    have "k' \<noteq> k"
      using d ks descend_Mapping_fresh[OF assms, of ks'] by auto
    then have "descend (Mapping ((k, val) # kvs)) ks = Some (Sequence xs)"
      using d ks by simp
    then show ?thesis
      using p unfolding array_paths_def by blast
  qed
qed

lemma findArrayPathsRecursive_set:
  "wf_node val \<Longrightarrow>
     set (findArrayPathsRecursive val path paths) = set paths \<union> array_paths val path"
  "distinct (map fst kvs) \<Longrightarrow> \<forall>kv \<in> set kvs. wf_node (snd kv) \<Longrightarrow>
     set (findArrayPaths_range kvs path paths) = set paths \<union> array_paths (Mapping kvs) path"
proof (induction val path paths and kvs path paths
    rule: findArrayPathsRecursive_findArrayPaths_range.induct)
  case (1 v path paths)
  then show ?case by (simp add: array_paths_Sequence)
next
  case (2 v path paths)
  then show ?case by simp
next
  case (8 path paths)
  then show ?case by (simp add: array_paths_Mapping_Nil)
next
  case (9 k val kvs path paths)
  have f: "k \<notin> fst ` set kvs" and d: "distinct (map fst kvs)"
    and w: "wf_node val" and ws: "\<forall>kv \<in> set kvs. wf_node (snd kv)"
    using 9(3,4) by auto
  show ?case
    using 9(1)[OF w] 9(2)[OF d ws] array_paths_Mapping_Cons[OF f, of val path]
    by auto
qed (simp_all add: array_paths_leaf)

lemma newPath_foldl_ne:
  "path \<noteq> [] \<Longrightarrow> foldl newPath path ks = path @ concat (map (\<lambda>k. ''.'' @ k) ks)"
  by (induction ks arbitrary: path) (auto simp: newPath_def)

lemma join_dot_concat: "join_dot (k # ks) = k @ concat (map (\<lambda>k. ''.'' @ k) ks)"
  by (induction ks arbitrary: k) auto

lemma newPath_Nil: "newPath [] k = k"
  by (simp add: newPath_def)

lemma foldl_newPath_recorded: "foldl newPath [] ks = recorded_path ks"
proof (induction ks)
  case Nil
  then show ?case by (simp add: recorded_path_def)
next
  case (Cons k ks)
  show ?case
  proof (cases "k = []")
    case True
    then show ?thesis using Cons by (simp add: recorded_path_def newPath_Nil)
  next
    case False
    then show ?thesis
      using newPath_foldl_ne[of k ks] by (simp add: recorded_path_def newPath_Nil join_dot_concat)
  qed
qed

text \<open>
  C9, the claim as it stands fails: in the tree \<open>{"": {a: []}}\<close> the keys \<open>""\<close> and \<open>a\<close>
  lead to a Sequence, and joined by a dot they give \<open>.a\<close>. The scanner returns the path
  \<open>a\<close>, which is not that path, and no Sequence is at the key \<open>a\<close> of the root.
\<close>

theorem findArrayPaths_empty_key:
  "findArrayPaths (Mapping [([], Mapping [(''a'', Sequence [])])]) = [''a'']
   \<and> descend (Mapping [([], Mapping [(''a'', Sequence [])])]) [[], ''a''] = Some (Sequence [])
   \<and> join_dot [[], ''a''] = ''.a''
   \<and> descend (Mapping [([], Mapping [(''a'', Sequence [])])]) [''a''] = None"
  by (simp add: findArrayPaths_def newPath_def)

text \<open>
  C9, amended. In a tree whose maps hold every key once, the paths that the scanner
  returns are exactly the recorded paths of the lists of keys that lead from the root,
  through Mappings only, to a Sequence: the keys joined by dots, after the empty keys in
  front are dropped (the root is the empty string). At a Sequence the scanner records the
  path and returns, whatever the elements are.
\<close>

theorem findArrayPaths_paths:
  assumes "wf_node root"
  shows "set (findArrayPaths root)
           = {recorded_path ks | ks. \<exists>xs. descend root ks = Some (Sequence xs)}
         \<and> findArrayPathsRecursive (Sequence elems) path paths = paths @ [path]"
  using findArrayPathsRecursive_set(1)[OF assms, of "[]" "[]"]
  by (simp add: findArrayPaths_def array_paths_def foldl_newPath_recorded)

theorem findArrayPaths_paths_witness:
  "wf_node (Mapping [(''a'', Sequence [Sequence []]), ([], Mapping [(''b'', Sequence [])])])
   \<and> set (findArrayPaths (Mapping [(''a'', Sequence [Sequence []]), ([], Mapping [(''b'', Sequence [])])]))
       = {recorded_path ks | ks. \<exists>xs.
            descend (Mapping [(''a'', Sequence [Sequence []]), ([], Mapping [(''b'', Sequence [])])]) ks
              = Some (Sequence xs)}
   \<and> findArrayPaths (Mapping [(''a'', Sequence [Sequence []]), ([], Mapping [(''b'', Sequence [])])])
       = [''a'', ''b'']"
proof -
  have w: "wf_node (Mapping [(''a'', Sequence [Sequence []]), ([], Mapping [(''b'', Sequence [])])])"
    by simp
  have f: "findArrayPaths (Mapping [(''a'', Sequence [Sequence []]), ([], Mapping [(''b'', Sequence [])])])
       = [''a'', ''b'']"
    by (simp add: findArrayPaths_def newPath_def)
  show ?thesis
    using findArrayPaths_paths [OF w] w f by simp
qed

section \<open>Extend\<close>

text \<open>
  \<^verbatim>\<open>strconv.Itoa\<close> on an index, which is not negative: its decimal digits.
\<close>

definition digit_char :: "nat \<Rightarrow> char" where
  "digit_char d = ''0123456789'' ! d"

function Itoa :: "nat \<Rightarrow> string" where
  "Itoa n = (if n < 10 then [digit_char n] else Itoa (n div 10) @ [digit_char (n mod 10)])"
  by pat_completeness auto
termination
  by (relation "measure id") auto

declare Itoa.simps [simp del]

text \<open>
  \<^verbatim>\<open>getKeys\<close>: the key lists of the leaves, through the entries of the maps and the
  indices of the slices; a map or a slice without entries has no key list. Each call
  copies \<^verbatim>\<open>base\<close>, so no two key lists share an array. The two \<^verbatim>\<open>range\<close> loops are the
  second and the third function, with the accumulator \<^verbatim>\<open>acc\<close>.
\<close>

fun getKeys :: "node \<Rightarrow> string list \<Rightarrow> string list list"
  and getKeys_map :: "(string \<times> node) list \<Rightarrow> string list \<Rightarrow> string list list \<Rightarrow> string list list"
  and getKeys_list :: "node list \<Rightarrow> nat \<Rightarrow> string list \<Rightarrow> string list list \<Rightarrow> string list list" where
  "getKeys (Mapping c) base = getKeys_map c base []"
| "getKeys (Sequence c) base = getKeys_list c 0 base []"
| "getKeys Null base = [base]"
| "getKeys (Boolean b) base = [base]"
| "getKeys (Integer i) base = [base]"
| "getKeys (Float f) base = [base]"
| "getKeys (String s) base = [base]"
| "getKeys_map [] nextBase acc = acc"
| "getKeys_map ((k, v) # kvs) nextBase acc =
     getKeys_map kvs nextBase (acc @ getKeys v (nextBase @ [k]))"
| "getKeys_list [] i nextBase acc = acc"
| "getKeys_list (v # vs) i nextBase acc =
     getKeys_list vs (Suc i) nextBase (acc @ getKeys v (nextBase @ [Itoa i]))"

text \<open>\<^verbatim>\<open>(*Config).List\<close>, on the root of the configuration.\<close>

definition List :: "node \<Rightarrow> string \<Rightarrow> error + node list" where
  "List root path =
     (case Get root path of
        Inl err \<Rightarrow> Inl err
      | Inr n \<Rightarrow>
          (case n of
             Sequence v \<Rightarrow> Inr v
           | _ \<Rightarrow> Inl (TypeMismatch ''[]any'' (type_of n))))"

text \<open>
  \<^verbatim>\<open>(*Config).Copy\<close> without arguments: the path is empty, and the root is rendered by
  \<^verbatim>\<open>yaml.Marshal\<close> and parsed back by \<^verbatim>\<open>yaml.Unmarshal\<close> and \<^verbatim>\<open>normalizeValue\<close>. The
  YAML library is not part of the source: what it makes of a tree, rendered and parsed
  back, is the parameter \<^verbatim>\<open>yaml_round_trip\<close>.
\<close>

definition Copy :: "(node \<Rightarrow> error + node) \<Rightarrow> node \<Rightarrow> error + node" where
  "Copy yaml_round_trip root = yaml_round_trip root"

text \<open>
  The loop of \<^verbatim>\<open>Extend\<close> over \<^verbatim>\<open>sourceArr\<close>, on the copy \<^verbatim>\<open>mergedArr\<close> of
  \<^verbatim>\<open>targetArr\<close>, from the index \<open>i\<close> on.
\<close>

fun merge_range :: "nat \<Rightarrow> node list \<Rightarrow> node list \<Rightarrow> node list" where
  "merge_range i [] mergedArr = mergedArr"
| "merge_range i (item # sourceArr) mergedArr =
     merge_range (Suc i) sourceArr
       (if i < length mergedArr then mergedArr[i := item] else mergedArr @ [item])"

text \<open>
  The first loop of \<^verbatim>\<open>Extend\<close>, over the array paths of the overlay \<^verbatim>\<open>cfg\<close>, on the copy
  \<^verbatim>\<open>n\<close> of the base; \<^verbatim>\<open>processedPaths\<close> is a set of paths. The second loop, over the key
  lists of the overlay, with the test \<^verbatim>\<open>skipPath\<close> over the processed paths. An error
  of a \<^verbatim>\<open>Set\<close> ends \<^verbatim>\<open>Extend\<close>, and the copy is dropped.

  \<^verbatim>\<open>Extend\<close> stores slices and maps of the overlay in the copy as they are, without
  copying them. The functions below are on trees without sharing: they give what the
  code computes as long as no \<^verbatim>\<open>Set\<close> of the same \<^verbatim>\<open>Extend\<close> writes into a slice or a
  map that came from the overlay.
\<close>

fun Extend_arrays :: "node \<Rightarrow> string list \<Rightarrow> node \<Rightarrow> string list \<Rightarrow> error + node \<times> string list" where
  "Extend_arrays cfg [] n processedPaths = Inr (n, processedPaths)"
| "Extend_arrays cfg (path # arrayPaths) n processedPaths =
     (if path = [] then Extend_arrays cfg arrayPaths n processedPaths
      else
        (case List cfg path of
           Inl err \<Rightarrow> Inl err
         | Inr sourceArr \<Rightarrow>
             (case Set n path
                     (case List n path of
                        Inr targetArr \<Rightarrow> Sequence (merge_range 0 sourceArr targetArr)
                      | Inl err \<Rightarrow> Sequence sourceArr) of
                (n', Some err) \<Rightarrow> Inl err
              | (n', None) \<Rightarrow> Extend_arrays cfg arrayPaths n' (List.insert path processedPaths))))"

definition skipPath :: "string list \<Rightarrow> string \<Rightarrow> bool" where
  "skipPath processedPaths k = list_ex (\<lambda>path. k = path \<or> prefix (path @ ''.'') k) processedPaths"

fun Extend_keys :: "node \<Rightarrow> string list \<Rightarrow> string list list \<Rightarrow> node \<Rightarrow> error + node" where
  "Extend_keys cfg processedPaths [] n = Inr n"
| "Extend_keys cfg processedPaths (key # keys) n =
     (if skipPath processedPaths (join_dot key) then Extend_keys cfg processedPaths keys n
      else
        (case Get cfg (join_dot key) of
           Inl err \<Rightarrow> Inl err
         | Inr i \<Rightarrow>
             (case Set n (join_dot key) i of
                (n', Some err) \<Rightarrow> Inl err
              | (n', None) \<Rightarrow> Extend_keys cfg processedPaths keys n')))"

definition Extend :: "(node \<Rightarrow> error + node) \<Rightarrow> node \<Rightarrow> node \<Rightarrow> error + node" where
  "Extend yaml_round_trip c cfg =
     (case Copy yaml_round_trip c of
        Inl err \<Rightarrow> Inl err
      | Inr n \<Rightarrow>
          (case Extend_arrays cfg (findArrayPaths cfg) n [] of
             Inl err \<Rightarrow> Inl err
           | Inr (n', processedPaths) \<Rightarrow> Extend_keys cfg processedPaths (getKeys cfg []) n'))"

section \<open>The array merge of Extend\<close>

lemma merge_range_eq:
  "i \<le> length m \<Longrightarrow>
     merge_range i src m = take i m @ src @ drop (i + length src) m"
proof (induction src arbitrary: i m)
  case Nil
  then show ?case by simp
next
  case (Cons item src)
  show ?case
  proof (cases "i < length m")
    case True
    then have "merge_range i (item # src) m = merge_range (Suc i) src (m[i := item])"
      by simp
    also have "\<dots> = take (Suc i) (m[i := item]) @ src @ drop (Suc i + length src) (m[i := item])"
      using True by (intro Cons.IH) simp
    also have "take (Suc i) (m[i := item]) = take i m @ [item]"
      using True by (simp add: take_Suc_conv_app_nth)
    finally show ?thesis by simp
  next
    case False
    then have i: "i = length m" using Cons.prems by simp
    then have "merge_range i (item # src) m = merge_range (Suc i) src (m @ [item])"
      by simp
    also have "\<dots> = take (Suc i) (m @ [item]) @ src @ drop (Suc i + length src) (m @ [item])"
      using i by (intro Cons.IH) simp
    finally show ?thesis using i by simp
  qed
qed

lemma merge_range_0: "merge_range 0 src m = src @ drop (length src) m"
  by (simp add: merge_range_eq)

lemma merge_range_elements:
  "length (merge_range 0 src m) = max (length m) (length src)
   \<and> (\<forall>i < length src. merge_range 0 src m ! i = src ! i)
   \<and> (\<forall>i. length src \<le> i \<and> i < length m \<longrightarrow> merge_range 0 src m ! i = m ! i)"
  by (auto simp: merge_range_0 nth_append)

text \<open>
  The keys that a path names as they are: not empty, without a dot or a bracket, and no
  integer for \<^verbatim>\<open>strconv.Atoi\<close>; and the trees whose keys are such, in the maps that are
  reached through maps only.
\<close>

definition simple_key :: "string \<Rightarrow> bool" where
  "simple_key k = (plain k \<and> CHR ''['' \<notin> set k \<and> CHR '']'' \<notin> set k \<and> Atoi k = None)"

fun simple_keys :: "node \<Rightarrow> bool" where
  "simple_keys (Mapping c) = (\<forall>kv \<in> set c. simple_key (fst kv) \<and> simple_keys (snd kv))"
| "simple_keys _ = True"

lemma set_join_dot: "set (join_dot ks) \<subseteq> (\<Union>k \<in> set ks. set k) \<union> {CHR ''.''}"
  by (induction ks rule: join_dot.induct) auto

lemma simple_no_brackets:
  assumes "\<forall>k \<in> set ks. simple_key k"
  shows "CHR ''['' \<notin> set (join_dot ks)" "CHR '']'' \<notin> set (join_dot ks)"
  using assms set_join_dot[of ks] by (auto simp: simple_key_def)

lemma simple_Set:
  assumes "ks \<noteq> []" "\<forall>k \<in> set ks. simple_key k"
  shows "Set cfg (join_dot ks) v = Set_parts cfg ks v"
  using assms by (intro Set_plain_parts) (auto simp: simple_key_def)

lemma simple_Get:
  assumes "ks \<noteq> []" "\<forall>k \<in> set ks. simple_key k"
  shows "Get cfg (join_dot ks) = Get_loop ks 0 ks cfg"
proof -
  have pl: "\<forall>k \<in> set ks. plain k"
    using assms(2) by (simp add: simple_key_def)
  have n: "normalize_path (join_dot ks) (split_dot (join_dot ks)) = Inr ks"
    using normalize_path_join[OF assms(1) pl] .
  have "splitKeyOnParts (join_dot ks) = split_dot (join_dot ks)"
    using simple_no_brackets[OF assms(2)] n assms(1) by (intro splitKeyOnParts_split_dot)
  then show ?thesis
    using n by (simp add: Get_def)
qed

lemma Get_loop_Inr_parts:
  "Get_loop parts pos ps cfg = Inr x \<Longrightarrow> Get_loop parts' pos' ps cfg = Inr x"
  by (induction ps arbitrary: pos pos' cfg)
     (auto split: node.splits option.splits if_splits)

lemma not_past_end_simple:
  "\<forall>q \<in> set qs. Atoi q = None \<Longrightarrow> \<not> indexes_past_end cfg qs"
  by (induction qs arbitrary: cfg) (auto split: node.splits option.splits)

lemma Set_parts_frame:
  "Set_parts cfg qs v = (cfg', None) \<Longrightarrow> \<not> prefix qs ps \<Longrightarrow> \<not> prefix ps qs
   \<Longrightarrow> \<forall>q \<in> set qs. Atoi q = None
   \<Longrightarrow> Get_loop parts pos ps cfg = Inr x \<Longrightarrow> Get_loop parts pos ps cfg' = Inr x"
proof (induction qs arbitrary: cfg cfg' ps pos)
  case Nil
  then show ?case by simp
next
  case (Cons q qs)
  obtain p ps' where ps: "ps = p # ps'"
    using Cons.prems(3) by (cases ps) auto
  have aq: "Atoi q = None" using Cons.prems(4) by simp
  obtain c where cfg: "cfg = Mapping c"
    using Cons.prems(1) aq by (cases cfg) (auto split: if_splits)
  show ?case
  proof (cases "q = p")
    case False
    obtain w where "cfg' = Mapping (AList.update q w c)"
      using Cons.prems(1) cfg
      by (auto split: if_splits option.splits sum.splits prod.splits)
    then show ?thesis
      using Cons.prems(5) cfg ps False by (simp add: update_conv')
  next
    case True
    have qs: "qs \<noteq> []" and np: "\<not> prefix qs ps'" "\<not> prefix ps' qs"
      using Cons.prems(2,3) ps True by auto
    obtain u where u: "map_of c q = Some u" and g: "Get_loop parts (Suc pos) ps' u = Inr x"
      using Cons.prems(5) cfg ps True by (auto split: option.splits)
    obtain u' where s: "Set_parts u qs v = (u', None)" and c': "cfg' = Mapping (AList.update q u' c)"
      using Cons.prems(1) cfg u qs by (auto split: prod.splits)
    have "Get_loop parts (Suc pos) ps' u' = Inr x"
      using Cons.IH[OF s np _ g] Cons.prems(4) by simp
    then show ?thesis
      using ps True c' by (simp add: update_conv')
  qed
qed

lemma List_simple:
  assumes "ps \<noteq> []" "\<forall>k \<in> set ps. simple_key k"
  shows "List n (join_dot ps) = Inr t \<longleftrightarrow> Get_loop ps 0 ps n = Inr (Sequence t)"
  unfolding List_def simple_Get[OF assms]
  by (auto split: sum.splits node.splits)

lemma descend_Get_loop:
  "descend cfg ks = Some n \<Longrightarrow> Get_loop parts pos ks cfg = Inr n"
  by (induction cfg ks arbitrary: pos rule: descend.induct) (auto split: option.splits)

lemma descend_append:
  "descend cfg (ks @ rest) = (case descend cfg ks of None \<Rightarrow> None | Some m \<Rightarrow> descend m rest)"
  by (induction cfg ks rule: descend.induct) (auto split: option.splits)

lemma descend_simple:
  "simple_keys cfg \<Longrightarrow> descend cfg ks = Some n
   \<Longrightarrow> (\<forall>k \<in> set ks. simple_key k) \<and> simple_keys n"
proof (induction cfg ks rule: descend.induct)
  case (2 c k ks)
  then obtain v where v: "map_of c k = Some v" and d: "descend v ks = Some n"
    by (auto split: option.splits)
  have "(k, v) \<in> set c" using v by (rule map_of_SomeD)
  then have "simple_key k" "simple_keys v"
    using 2(2) by auto
  then show ?case using 2(1)[OF v _ d] by simp
qed auto

lemma descend_past_Sequence:
  assumes "descend cfg ps = Some (Sequence ys)" "descend cfg qs = Some m" "prefix ps qs"
  shows "qs = ps"
proof -
  obtain rest where "qs = ps @ rest"
    using assms(3) by (auto simp: prefix_def)
  then show ?thesis
    using assms(1,2) by (simp add: descend_append descend_Sequence)
qed

lemma descend_past_leaf:
  assumes "descend cfg key = Some leaf" "\<forall>c. leaf \<noteq> Mapping c"
    and "descend cfg qs = Some m" "prefix key qs"
  shows "qs = key \<and> m = leaf"
proof -
  obtain rest where "qs = key @ rest"
    using assms(4) by (auto simp: prefix_def)
  then show ?thesis
    using assms(1,2,3) by (simp add: descend_append descend_leaf)
qed

lemma recorded_path_simple:
  "\<forall>k \<in> set ks. simple_key k \<Longrightarrow> recorded_path ks = join_dot ks"
  by (cases ks) (auto simp: recorded_path_def simple_key_def plain_def)

lemma findArrayPaths_set:
  "wf_node root \<Longrightarrow>
     set (findArrayPaths root) = {recorded_path ks | ks. \<exists>xs. descend root ks = Some (Sequence xs)}"
  using findArrayPathsRecursive_set(1)[of root "[]" "[]"]
  by (simp add: findArrayPaths_def array_paths_def foldl_newPath_recorded)

lemma join_dot_append:
  "ks \<noteq> [] \<Longrightarrow> rest \<noteq> [] \<Longrightarrow> join_dot (ks @ rest) = join_dot ks @ ''.'' @ join_dot rest"
  by (induction ks rule: join_dot.induct) (auto simp: join_dot_Cons)

lemma join_dot_ne: "ks \<noteq> [] \<Longrightarrow> \<forall>k \<in> set ks. k \<noteq> [] \<Longrightarrow> join_dot ks \<noteq> []"
  by (cases ks rule: join_dot.cases) auto

lemma Extend_arrays_inv:
  assumes ps: "ps \<noteq> []" "\<forall>k \<in> set ps. simple_key k"
    and src: "List cfg (join_dot ps) = Inr ys"
  shows "Extend_arrays cfg paths n proc = Inr (n', proc') \<Longrightarrow>
     \<forall>q \<in> set paths. q = [] \<or> q = join_dot ps \<or>
        (\<exists>ks. q = join_dot ks \<and> ks \<noteq> [] \<and> (\<forall>k \<in> set ks. simple_key k)
              \<and> \<not> prefix ks ps \<and> \<not> prefix ps ks) \<Longrightarrow>
     Get_loop ps 0 ps n = Inr (Sequence xs)
       \<or> Get_loop ps 0 ps n = Inr (Sequence (ys @ drop (length ys) xs)) \<Longrightarrow>
     (Get_loop ps 0 ps n' = Inr (Sequence xs)
       \<or> Get_loop ps 0 ps n' = Inr (Sequence (ys @ drop (length ys) xs)))
     \<and> (Get_loop ps 0 ps n = Inr (Sequence (ys @ drop (length ys) xs)) \<or> join_dot ps \<in> set paths
          \<longrightarrow> Get_loop ps 0 ps n' = Inr (Sequence (ys @ drop (length ys) xs)))
     \<and> set proc' = set proc \<union> (set paths - {[]})"
proof (induction paths arbitrary: n proc)
  case Nil
  then show ?case by auto
next
  case (Cons q paths)
  let ?m = "ys @ drop (length ys) xs"
  have rest: "\<forall>q \<in> set paths. q = [] \<or> q = join_dot ps \<or>
        (\<exists>ks. q = join_dot ks \<and> ks \<noteq> [] \<and> (\<forall>k \<in> set ks. simple_key k)
              \<and> \<not> prefix ks ps \<and> \<not> prefix ps ks)"
    using Cons.prems(2) by simp
  show ?case
  proof (cases "q = []")
    case True
    then have "Extend_arrays cfg paths n proc = Inr (n', proc')"
      using Cons.prems(1) by simp
    from Cons.IH[OF this rest Cons.prems(3)] show ?thesis
      using True ps join_dot_ne[of ps] by (auto simp: simple_key_def plain_def)
  next
    case False
    obtain src_q where sq: "List cfg q = Inr src_q"
      using Cons.prems(1) False by (auto split: sum.splits)
    define v where "v = (case List n q of
        Inr targetArr \<Rightarrow> Sequence (merge_range 0 src_q targetArr)
      | Inl err \<Rightarrow> Sequence src_q)"
    obtain n1 where s: "Set n q v = (n1, None)"
      and r: "Extend_arrays cfg paths n1 (List.insert q proc) = Inr (n', proc')"
      using Cons.prems(1) False sq unfolding v_def
      by (auto split: prod.splits option.splits)
    show ?thesis
    proof (cases "q = join_dot ps")
      case True
      have "src_q = ys" using sq src True by simp
      moreover have "List n q = Inr xs \<or> List n q = Inr ?m"
        using Cons.prems(3) True by (simp add: List_simple[OF ps])
      ultimately have v: "v = Sequence ?m"
        unfolding v_def by (auto simp: merge_range_0)
      have "Set_parts n ps (Sequence ?m) = (n1, None)"
        using s True v by (simp add: simple_Set[OF ps])
      then have j: "Get_loop ps 0 ps n1 = Inr (Sequence ?m)"
        using ps not_past_end_simple[of ps n]
        by (intro Set_parts_then_Get_loop) (auto simp: simple_key_def)
      from Cons.IH[OF r rest] j show ?thesis
        using False by auto
    next
      case np: False
      then obtain ks where q: "q = join_dot ks" and ks: "ks \<noteq> []" "\<forall>k \<in> set ks. simple_key k"
        and inc: "\<not> prefix ks ps" "\<not> prefix ps ks"
        using Cons.prems(2) False by auto
      have sp: "Set_parts n ks v = (n1, None)"
        using s q by (simp add: simple_Set[OF ks])
      have an: "\<forall>k \<in> set ks. Atoi k = None"
        using ks(2) by (simp add: simple_key_def)
      have fr: "Get_loop ps 0 ps n = Inr x \<Longrightarrow> Get_loop ps 0 ps n1 = Inr x" for x
        using Set_parts_frame[OF sp inc an] .
      have i1: "Get_loop ps 0 ps n1 = Inr (Sequence xs) \<or> Get_loop ps 0 ps n1 = Inr (Sequence ?m)"
        using Cons.prems(3) fr by auto
      from Cons.IH[OF r rest i1] show ?thesis
        using False np fr by auto
    qed
  qed
qed

lemma Extend_keys_inv:
  "Extend_keys cfg proc keys n = Inr n' \<Longrightarrow>
     \<forall>key \<in> set keys. skipPath proc (join_dot key) \<or>
        (key \<noteq> [] \<and> (\<forall>k \<in> set key. simple_key k) \<and> \<not> prefix key ps \<and> \<not> prefix ps key) \<Longrightarrow>
     Get_loop ps 0 ps n = Inr x \<Longrightarrow> Get_loop ps 0 ps n' = Inr x"
proof (induction keys arbitrary: n)
  case Nil
  then show ?case by simp
next
  case (Cons key keys)
  have rest: "\<forall>key \<in> set keys. skipPath proc (join_dot key) \<or>
        (key \<noteq> [] \<and> (\<forall>k \<in> set key. simple_key k) \<and> \<not> prefix key ps \<and> \<not> prefix ps key)"
    using Cons.prems(2) by simp
  show ?case
  proof (cases "skipPath proc (join_dot key)")
    case True
    then have "Extend_keys cfg proc keys n = Inr n'"
      using Cons.prems(1) by simp
    from Cons.IH[OF this rest Cons.prems(3)] show ?thesis .
  next
    case False
    then have key: "key \<noteq> []" "\<forall>k \<in> set key. simple_key k"
      and inc: "\<not> prefix key ps" "\<not> prefix ps key"
      using Cons.prems(2) by auto
    obtain i n1 where s: "Set n (join_dot key) i = (n1, None)"
      and r: "Extend_keys cfg proc keys n1 = Inr n'"
      using Cons.prems(1) False by (auto split: sum.splits prod.splits option.splits)
    have sp: "Set_parts n key i = (n1, None)"
      using s by (simp add: simple_Set[OF key])
    have an: "\<forall>k \<in> set key. Atoi k = None"
      using key(2) by (simp add: simple_key_def)
    have "Get_loop ps 0 ps n1 = Inr x"
      using Set_parts_frame[OF sp inc an Cons.prems(3)] .
    from Cons.IH[OF r rest this] show ?thesis .
  qed
qed

lemma getKeys_map_mem:
  "key \<in> set (getKeys_map kvs base acc) \<Longrightarrow>
     key \<in> set acc \<or> (\<exists>kv \<in> set kvs. key \<in> set (getKeys (snd kv) (base @ [fst kv])))"
  by (induction kvs arbitrary: acc) fastforce+

lemma getKeys_list_mem:
  "key \<in> set (getKeys_list vs i base acc) \<Longrightarrow>
     key \<in> set acc \<or> (\<exists>v \<in> set vs. \<exists>j. key \<in> set (getKeys v (base @ [Itoa j])))"
  by (induction vs arbitrary: i acc) fastforce+

lemma getKeys_shape:
  "wf_node v \<Longrightarrow> key \<in> set (getKeys v base) \<Longrightarrow>
     \<exists>rest. key = base @ rest \<and>
       ((\<exists>leaf. descend v rest = Some leaf \<and> (\<forall>c. leaf \<noteq> Mapping c) \<and> (\<forall>xs. leaf \<noteq> Sequence xs))
        \<or> (\<exists>ks tl xs. rest = ks @ tl \<and> tl \<noteq> [] \<and> descend v ks = Some (Sequence xs)))"
proof (induction v arbitrary: key base)
  case (Sequence xs)
  then obtain x j where x: "x \<in> set xs" and k: "key \<in> set (getKeys x (base @ [Itoa j]))"
    using getKeys_list_mem[of key xs 0 base "[]"] by auto
  have "wf_node x" using Sequence.prems(1) x by simp
  from Sequence.IH[OF x this k] obtain rest where "key = (base @ [Itoa j]) @ rest"
    by blast
  then have "key = base @ (Itoa j # rest)" by simp
  moreover have "Itoa j # rest = [] @ (Itoa j # rest) \<and> Itoa j # rest \<noteq> []
      \<and> descend (Sequence xs) [] = Some (Sequence xs)"
    by simp
  ultimately show ?case by blast
next
  case (Mapping c)
  then obtain kv where kv: "kv \<in> set c" and k: "key \<in> set (getKeys (snd kv) (base @ [fst kv]))"
    using getKeys_map_mem[of key c base "[]"] by auto
  have w: "wf_node (snd kv)" and d: "distinct (map fst c)"
    using Mapping.prems(1) kv by auto
  have m: "map_of c (fst kv) = Some (snd kv)"
    using d kv by (intro map_of_is_SomeI) auto
  have "snd kv \<in> Basic_BNFs.snds kv"
    by (cases kv) simp
  from Mapping.IH[OF kv this w k] obtain rest where r: "key = (base @ [fst kv]) @ rest"
    and q: "(\<exists>leaf. descend (snd kv) rest = Some leaf \<and> (\<forall>c. leaf \<noteq> Mapping c) \<and> (\<forall>xs. leaf \<noteq> Sequence xs))
        \<or> (\<exists>ks tl xs. rest = ks @ tl \<and> tl \<noteq> [] \<and> descend (snd kv) ks = Some (Sequence xs))"
    by blast
  have k': "key = base @ (fst kv # rest)" using r by simp
  from q show ?case
  proof
    assume "\<exists>leaf. descend (snd kv) rest = Some leaf \<and> (\<forall>c. leaf \<noteq> Mapping c) \<and> (\<forall>xs. leaf \<noteq> Sequence xs)"
    then have "\<exists>leaf. descend (Mapping c) (fst kv # rest) = Some leaf \<and> (\<forall>c. leaf \<noteq> Mapping c) \<and> (\<forall>xs. leaf \<noteq> Sequence xs)"
      using m by simp
    then show ?thesis using k' by blast
  next
    assume "\<exists>ks tl xs. rest = ks @ tl \<and> tl \<noteq> [] \<and> descend (snd kv) ks = Some (Sequence xs)"
    then obtain ks tl xs where "rest = ks @ tl" "tl \<noteq> []" "descend (snd kv) ks = Some (Sequence xs)"
      by blast
    then have "fst kv # rest = (fst kv # ks) @ tl \<and> tl \<noteq> []
       \<and> descend (Mapping c) (fst kv # ks) = Some (Sequence xs)"
      using m by simp
    then show ?thesis using k' by blast
  qed
qed auto

lemma Itoa_0: "Itoa 0 = ''0''"
  by (simp add: Itoa.simps digit_char_def)

lemma Itoa_Suc_0: "Itoa (Suc 0) = ''1''"
  by (simp add: Itoa.simps digit_char_def)

lemmas Set_eval = Set_eq_Set_parts split_dot_def normalize_path_def

lemmas Extend_eval = Extend_def Copy_def findArrayPaths_def newPath_def List_def skipPath_def
  Itoa_0 Itoa_Suc_0

text \<open>
  C2, the claim as it stands fails. With the lists \<open>[1]\<close> and \<open>[7, 8]\<close> as the roots of
  the base and of the overlay, the root is an array path of the overlay, and the result
  is \<open>[7]\<close>, of length one. With the base \<open>{a: [[5]]}\<close> and the overlay
  \<open>{a: {"0": [1], "00": [2]}}\<close>, the array paths \<open>a.0\<close> and \<open>a.00\<close> of the overlay name the
  same element of the base: the result has \<open>[2]\<close> at \<open>a.0\<close>, where the overlay has \<open>[1]\<close>
  (and \<open>[1]\<close> at \<open>a.00\<close>, where the overlay has \<open>[2]\<close>, when the map is ranged over in the
  other order).
\<close>

theorem Extend_merge_fails:
  "Extend Inr (Sequence [Integer 1]) (Sequence [Integer 7, Integer 8]) = Inr (Sequence [Integer 7])
   \<and> findArrayPaths (Sequence [Integer 7, Integer 8]) = [[]]
   \<and> Extend Inr (Mapping [(''a'', Sequence [Sequence [Integer 5]])])
        (Mapping [(''a'', Mapping [(''0'', Sequence [Integer 1]), (''00'', Sequence [Integer 2])])])
       = Inr (Mapping [(''a'', Sequence [Sequence [Integer 2]])])
   \<and> Extend Inr (Mapping [(''a'', Sequence [Sequence [Integer 5]])])
        (Mapping [(''a'', Mapping [(''00'', Sequence [Integer 2]), (''0'', Sequence [Integer 1])])])
       = Inr (Mapping [(''a'', Sequence [Sequence [Integer 1]])])
   \<and> findArrayPaths (Mapping [(''a'', Mapping [(''0'', Sequence [Integer 1]), (''00'', Sequence [Integer 2])])])
       = [''a.0'', ''a.00'']
   \<and> List (Mapping [(''a'', Mapping [(''0'', Sequence [Integer 1]), (''00'', Sequence [Integer 2])])]) ''a.0''
       = Inr [Integer 1]
   \<and> List (Mapping [(''a'', Mapping [(''0'', Sequence [Integer 1]), (''00'', Sequence [Integer 2])])]) ''a.00''
       = Inr [Integer 2]
   \<and> List (Mapping [(''a'', Sequence [Sequence [Integer 5]])]) ''a.0'' = Inr [Integer 5]
   \<and> List (Mapping [(''a'', Sequence [Sequence [Integer 5]])]) ''a.00'' = Inr [Integer 5]
   \<and> List (Mapping [(''a'', Sequence [Sequence [Integer 2]])]) ''a.0'' = Inr [Integer 2]
   \<and> List (Mapping [(''a'', Sequence [Sequence [Integer 1]])]) ''a.00'' = Inr [Integer 1]"
  by (simp add: Extend_eval Get_defs Set_eval parse_defs)

text \<open>
  C2, amended. For an overlay whose maps hold every key once and whose keys, in the maps
  reached through maps only, are not empty, hold no dot and no bracket and are no
  integers; for a copy \<open>n\<close> of the base, and an array path of the overlay, other than the
  root, at which both the overlay and the copy have a Sequence: when \<^verbatim>\<open>Extend\<close> returns a
  configuration, its Sequence at that path is the overlay's Sequence followed by the
  elements of the copy's Sequence from the overlay's length on. So it has the overlay's
  element at every index of the overlay's Sequence, the copy's element at every higher
  index, and the greater of the two lengths (\<open>merge_range_elements\<close>).
\<close>

theorem Extend_array_merge:
  assumes wf: "wf_node cfg" and sk: "simple_keys cfg"
    and path: "path \<in> set (findArrayPaths cfg)" "path \<noteq> []"
    and src: "List cfg path = Inr sourceArr"
    and cp: "Copy yaml_round_trip c = Inr n"
    and tgt: "List n path = Inr targetArr"
    and ex: "Extend yaml_round_trip c cfg = Inr result"
  shows "List result path = Inr (sourceArr @ drop (length sourceArr) targetArr)"
proof -
  let ?m = "sourceArr @ drop (length sourceArr) targetArr"
  obtain ps ys where p: "path = recorded_path ps" and d: "descend cfg ps = Some (Sequence ys)"
    using path(1) findArrayPaths_set[OF wf] by auto
  have ps: "\<forall>k \<in> set ps. simple_key k"
    using descend_simple[OF sk d] by simp
  have pj: "path = join_dot ps"
    using p recorded_path_simple[OF ps] by simp
  have pne: "ps \<noteq> []"
    using pj path(2) by auto
  obtain n1 proc where l1: "Extend_arrays cfg (findArrayPaths cfg) n [] = Inr (n1, proc)"
    and l2: "Extend_keys cfg proc (getKeys cfg []) n1 = Inr result"
    using ex cp by (auto simp: Extend_def split: sum.splits prod.splits)
  have c1: "\<forall>q \<in> set (findArrayPaths cfg). q = [] \<or> q = join_dot ps \<or>
        (\<exists>ks. q = join_dot ks \<and> ks \<noteq> [] \<and> (\<forall>k \<in> set ks. simple_key k)
              \<and> \<not> prefix ks ps \<and> \<not> prefix ps ks)"
  proof
    fix q assume "q \<in> set (findArrayPaths cfg)"
    then obtain ks zs where q: "q = recorded_path ks" and dk: "descend cfg ks = Some (Sequence zs)"
      using findArrayPaths_set[OF wf] by auto
    have ks: "\<forall>k \<in> set ks. simple_key k"
      using descend_simple[OF sk dk] by simp
    have qj: "q = join_dot ks"
      using q recorded_path_simple[OF ks] by simp
    show "q = [] \<or> q = join_dot ps \<or>
        (\<exists>ks. q = join_dot ks \<and> ks \<noteq> [] \<and> (\<forall>k \<in> set ks. simple_key k)
              \<and> \<not> prefix ks ps \<and> \<not> prefix ps ks)"
    proof (cases "ks = [] \<or> ks = ps")
      case True
      then show ?thesis using qj by auto
    next
      case False
      have "\<not> prefix ks ps"
        using descend_past_Sequence[OF dk d] False by auto
      moreover have "\<not> prefix ps ks"
        using descend_past_Sequence[OF d dk] False by auto
      ultimately show ?thesis
        using qj ks False by blast
    qed
  qed
  have g0: "Get_loop ps 0 ps n = Inr (Sequence targetArr)"
    using tgt pj List_simple[OF pne ps] by simp
  have srcj: "List cfg (join_dot ps) = Inr sourceArr"
    using src pj by simp
  have inv: "(Get_loop ps 0 ps n = Inr (Sequence ?m) \<or> join_dot ps \<in> set (findArrayPaths cfg)
          \<longrightarrow> Get_loop ps 0 ps n1 = Inr (Sequence ?m))
     \<and> set proc = set [] \<union> (set (findArrayPaths cfg) - {[]})"
    using Extend_arrays_inv[OF pne ps srcj l1 c1, of targetArr] g0 by blast
  then have g1: "Get_loop ps 0 ps n1 = Inr (Sequence ?m)"
    and proc: "set proc = set (findArrayPaths cfg) - {[]}"
    using path(1) pj by auto
  obtain c0 where root: "cfg = Mapping c0"
    using d pne by (cases "(cfg, ps)" rule: descend.cases) auto
  have c2: "\<forall>key \<in> set (getKeys cfg []). skipPath proc (join_dot key) \<or>
        (key \<noteq> [] \<and> (\<forall>k \<in> set key. simple_key k) \<and> \<not> prefix key ps \<and> \<not> prefix ps key)"
  proof
    fix key assume "key \<in> set (getKeys cfg [])"
    from getKeys_shape[OF wf this]
    consider (leaf) leaf where "descend cfg key = Some leaf" "\<forall>c. leaf \<noteq> Mapping c"
        "\<forall>xs. leaf \<noteq> Sequence xs"
      | (seq) ks tl xs where "key = ks @ tl" "tl \<noteq> []" "descend cfg ks = Some (Sequence xs)"
      by auto
    then show "skipPath proc (join_dot key) \<or>
        (key \<noteq> [] \<and> (\<forall>k \<in> set key. simple_key k) \<and> \<not> prefix key ps \<and> \<not> prefix ps key)"
    proof cases
      case leaf
      have "key \<noteq> []"
        using leaf(1,2) root by auto
      moreover have "\<forall>k \<in> set key. simple_key k"
        using descend_simple[OF sk leaf(1)] by simp
      moreover have "\<not> prefix key ps"
        using descend_past_leaf[OF leaf(1,2) d] leaf(3) by auto
      moreover have "\<not> prefix ps key"
        using descend_past_Sequence[OF d leaf(1)] leaf(1,3) d by auto
      ultimately show ?thesis by simp
    next
      case seq
      have ks: "\<forall>k \<in> set ks. simple_key k"
        using descend_simple[OF sk seq(3)] by simp
      have kne: "ks \<noteq> []"
        using seq(3) root by auto
      have "recorded_path ks \<in> set (findArrayPaths cfg)"
        using findArrayPaths_set[OF wf] seq(3) by auto
      then have "join_dot ks \<in> set (findArrayPaths cfg)"
        using recorded_path_simple[OF ks] by simp
      moreover have "join_dot ks \<noteq> []"
        using join_dot_ne[OF kne] ks by (auto simp: simple_key_def plain_def)
      ultimately have "join_dot ks \<in> set proc"
        using proc by simp
      moreover have "prefix (join_dot ks @ ''.'') (join_dot key)"
        using join_dot_append[OF kne seq(2)] seq(1) by (simp add: prefix_def)
      ultimately have "skipPath proc (join_dot key)"
        unfolding skipPath_def list_ex_iff by blast
      then show ?thesis by simp
    qed
  qed
  have "Get_loop ps 0 ps result = Inr (Sequence ?m)"
    using Extend_keys_inv[OF l2 c2 g1] .
  then show ?thesis
    using pj List_simple[OF pne ps] by simp
qed

theorem Extend_array_merge_witness:
  "wf_node (Mapping [(''l'', Sequence [Integer 7, Integer 8])])
   \<and> simple_keys (Mapping [(''l'', Sequence [Integer 7, Integer 8])])
   \<and> ''l'' \<in> set (findArrayPaths (Mapping [(''l'', Sequence [Integer 7, Integer 8])]))
   \<and> ''l'' \<noteq> []
   \<and> List (Mapping [(''l'', Sequence [Integer 7, Integer 8])]) ''l'' = Inr [Integer 7, Integer 8]
   \<and> Copy Inr (Mapping [(''l'', Sequence [Integer 0, Integer 1, Integer 2])])
       = Inr (Mapping [(''l'', Sequence [Integer 0, Integer 1, Integer 2])])
   \<and> List (Mapping [(''l'', Sequence [Integer 0, Integer 1, Integer 2])]) ''l''
       = Inr [Integer 0, Integer 1, Integer 2]
   \<and> Extend Inr (Mapping [(''l'', Sequence [Integer 0, Integer 1, Integer 2])])
        (Mapping [(''l'', Sequence [Integer 7, Integer 8])])
       = Inr (Mapping [(''l'', Sequence [Integer 7, Integer 8, Integer 2])])
   \<and> List (Mapping [(''l'', Sequence [Integer 7, Integer 8, Integer 2])]) ''l''
       = Inr [Integer 7, Integer 8, Integer 2]"
proof -
  have h1: "wf_node (Mapping [(''l'', Sequence [Integer 7, Integer 8])])"
    by simp
  have h2: "simple_keys (Mapping [(''l'', Sequence [Integer 7, Integer 8])])"
    by (simp add: simple_key_def plain_def parse_defs)
  have h3: "''l'' \<in> set (findArrayPaths (Mapping [(''l'', Sequence [Integer 7, Integer 8])]))"
    by (simp add: findArrayPaths_def newPath_def)
  have h4: "''l'' \<noteq> []"
    by simp
  have h5: "List (Mapping [(''l'', Sequence [Integer 7, Integer 8])]) ''l''
      = Inr [Integer 7, Integer 8]"
    by (simp add: List_def Get_defs)
  have h6: "Copy Inr (Mapping [(''l'', Sequence [Integer 0, Integer 1, Integer 2])])
       = Inr (Mapping [(''l'', Sequence [Integer 0, Integer 1, Integer 2])])"
    by (simp add: Copy_def)
  have h7: "List (Mapping [(''l'', Sequence [Integer 0, Integer 1, Integer 2])]) ''l''
       = Inr [Integer 0, Integer 1, Integer 2]"
    by (simp add: List_def Get_defs)
  have h8: "Extend Inr (Mapping [(''l'', Sequence [Integer 0, Integer 1, Integer 2])])
        (Mapping [(''l'', Sequence [Integer 7, Integer 8])])
       = Inr (Mapping [(''l'', Sequence [Integer 7, Integer 8, Integer 2])])"
    by (simp add: Extend_eval Get_defs Set_eval parse_defs)
  show ?thesis
    using Extend_array_merge [OF h1 h2 h3 h4 h5 h6 h7 h8] h1 h2 h3 h5 h6 h7 h8 by simp
qed

end
